theory Spec2Isabelle
  imports Complex_Main
begin

section \<open>The model of lidarview.cpp\<close>

subsection \<open>Grids, labels and faults\<close>

text \<open>
  The program keeps its grids in \<open>vector<vector<float>>\<close> and \<open>vector<vector<int>>\<close>.
  A grid that is only read (\<open>last_grid\<close> in \<open>find_ground\<close>) is a list of rows. A grid
  that the loops write by index (\<open>is_ground\<close>, and the sample lists and the averages of
  \<open>gridify\<close>) is a function from index pairs to values, with the sizes carried beside it;
  where the source can index outside these sizes the model says so, and the vector handed
  on at the end is tabulated from the function.

  The grids of the program are rectangular: \<open>gridify\<close> builds every one of them as
  \<open>rows\<close> vectors of length \<open>cols\<close>. The model of \<open>find_ground\<close> follows the source on
  such grids.

  Elevations, coordinates and the threshold are \<open>float\<close> in the source and real numbers
  here: comparisons, differences, quotients and means are exact, rounding is left out.
  Indices that the source stores in the \<open>float\<close> fields of a \<open>Point\<close> are natural
  numbers. The counter \<open>unclassified_count\<close> is an \<open>int\<close> in the source and an unbounded
  integer here.
\<close>

type_synonym cell = "nat \<times> nat"
type_synonym grid = "real list list"
type_synonym labels = "cell \<Rightarrow> int"

text \<open>An entry of the work queue: \<open>Point(i, j, h)\<close>, the two indices and a height.\<close>

type_synonym entry = "nat \<times> nat \<times> real"

type_synonym bfs_state = "labels \<times> entry list \<times> int"

text \<open>\<open>const int NODATA = -9999\<close>, compared with \<open>float\<close> values.\<close>

definition NODATA :: real where
  "NODATA = - 9999"

text \<open>\<open>const int BIGINT = 0x0fffffff\<close> is 268435455. Its one use is
  \<open>float min_height = BIGINT\<close>, and the \<open>float\<close> nearest to it is \<open>2^28 = 268435456\<close>:
  that is the value the seed search starts from. (No \<open>float\<close> lies strictly between
  268435440 and 268435456, so an elevation is below the one number exactly when it is below
  the other.)\<close>

definition BIGINT :: real where
  "BIGINT = 268435456"

text \<open>
  The source has no error path in \<open>gridify\<close> and \<open>find_ground\<close>: no \<open>exit\<close>, no
  \<open>throw\<close>, no \<open>assert\<close>. Where it leaves the defined behaviour of C++ the model returns
  a fault: an index outside a vector, a division by zero, a vector built with a negative
  size, a \<open>float\<close> without an integer value converted to \<open>int\<close>.
\<close>

datatype fault = Out_of_range | Division_by_zero | Negative_size | Not_a_number

subsection \<open>The classifier: \<open>find_ground\<close>\<close>

text \<open>\<open>bool curr_type = is_ground[curr_i][curr_j]\<close>: every value but 0 is \<open>true\<close>,
  and \<open>true\<close> is stored back as 1.\<close>

definition curr_type :: "labels \<Rightarrow> entry \<Rightarrow> int" where
  "curr_type lab cur = (case cur of (ci, cj, ch) \<Rightarrow> if lab (ci, cj) = 0 then 0 else 1)"

text \<open>The four pairs \<open>(di, dj)\<close> that pass \<open>di != dj && (di == 0 || dj == 0)\<close>, in the
  order of the two nested loops from -1 to 1.\<close>

definition compass :: "(int \<times> int) list" where
  "compass = [(- 1, 0), (0, - 1), (0, 1), (1, 0)]"

text \<open>The body of the two inner loops for one direction: the bounds check, the test for a
  visited or NODATA neighbour (the two sides of \<open>||\<close> in their order), and the three
  branches on the slope.\<close>

fun visit :: "real \<Rightarrow> grid \<Rightarrow> entry \<Rightarrow> int \<Rightarrow> int \<times> int \<Rightarrow> bfs_state \<Rightarrow> bfs_state" where
  "visit t g (ci, cj, ch) ct (di, dj) (lab, q, cnt) =
     (if int ci + di \<ge> 0 \<and> int cj + dj \<ge> 0 \<and>
         int ci + di < int (length g) \<and> int cj + dj < int (length (g ! 0))
      then
        (let new_i = nat (int ci + di); new_j = nat (int cj + dj) in
         if lab (new_i, new_j) \<noteq> - 1 then (lab, q, cnt)
         else if g ! new_i ! new_j = NODATA then (lab, q, cnt)
         else
           (let new_h = g ! new_i ! new_j; slope = new_h - ch in
            if slope \<le> t \<and> slope \<ge> 0
            then (lab((new_i, new_j) := ct), q @ [(new_i, new_j, new_h)], cnt - 1)
            else if slope > t
            then (lab((new_i, new_j) := 0), q @ [(new_i, new_j, new_h)], cnt - 1)
            else (lab, q, cnt)))
      else (lab, q, cnt))"

text \<open>One iteration of \<open>while(q.size())\<close>: pop the front, read its type, visit the four
  neighbours.\<close>

definition expand :: "real \<Rightarrow> grid \<Rightarrow> entry \<Rightarrow> bfs_state \<Rightarrow> bfs_state" where
  "expand t g cur st = fold (visit t g cur (curr_type (fst st) cur)) compass st"

text \<open>The loop \<open>while(q.size())\<close>. The queue is a list: \<open>push\<close> appends, \<open>front\<close> and
  \<open>pop\<close> take the head.\<close>

function bfs :: "real \<Rightarrow> grid \<Rightarrow> bfs_state \<Rightarrow> bfs_state" where
  "bfs t g (lab, [], cnt) = (lab, [], cnt)"
| "bfs t g (lab, cur # q, cnt) = bfs t g (expand t g cur (lab, q, cnt))"
  by pat_completeness auto

text \<open>The two scanning loops visit the cells row by row: \<open>i\<close> over \<open>last_grid.size()\<close>,
  \<open>j\<close> over \<open>last_grid[i].size()\<close>.\<close>

definition scan :: "grid \<Rightarrow> cell list" where
  "scan g = concat (map (\<lambda>i. map (\<lambda>j. (i, j)) [0..<length (g ! i)]) [0..<length g])"

text \<open>The counter starts at \<open>num_rows * num_cols\<close> and loses one for every NODATA cell.\<close>

definition initial_count :: "grid \<Rightarrow> int" where
  "initial_count g =
     fold (\<lambda>(i, j) n. if g ! i ! j = NODATA then n - 1 else n) (scan g)
       (int (length g) * int (length (g ! 0)))"

text \<open>The search for the lowest unclassified cell: \<open>min_height\<close> starts at BIGINT and the
  indices at 0, and a cell replaces them only when it is strictly lower.\<close>

definition lower :: "grid \<Rightarrow> labels \<Rightarrow> cell \<Rightarrow> entry \<Rightarrow> entry" where
  "lower g lab c m =
     (case c of (i, j) \<Rightarrow> case m of (min_i, min_j, min_height) \<Rightarrow>
        if g ! i ! j \<noteq> NODATA \<and> lab (i, j) = - 1 \<and> g ! i ! j < min_height
        then (i, j, g ! i ! j) else (min_i, min_j, min_height))"

definition find_min :: "grid \<Rightarrow> labels \<Rightarrow> entry" where
  "find_min g lab = fold (lower g lab) (scan g) (0, 0, BIGINT)"

text \<open>The cell of a queue entry.\<close>

definition cell_of :: "entry \<Rightarrow> cell" where
  "cell_of e = (fst e, fst (snd e))"

text \<open>One iteration of the \<open>do\<close> loop: the seed is pushed, labelled 1 and counted, and
  the queue is emptied. When the search has found no cell the seed is \<open>(0, 0)\<close> with the
  height BIGINT.\<close>

definition pass :: "real \<Rightarrow> grid \<Rightarrow> labels \<times> int \<Rightarrow> labels \<times> int" where
  "pass t g s =
     (let m = find_min g (fst s);
          r = bfs t g ((fst s)(cell_of m := 1), [m], snd s - 1)
      in (fst r, snd (snd r)))"

text \<open>The \<open>do ... while(unclassified_count > 0)\<close> loop: the body runs before the test.\<close>

function outer :: "real \<Rightarrow> grid \<Rightarrow> labels \<times> int \<Rightarrow> labels \<times> int" where
  "outer t g s = (if snd (pass t g s) > 0 then outer t g (pass t g s) else pass t g s)"
  by pat_completeness auto

text \<open>The number of iterations of the \<open>do\<close> loop (a count beside the model: the source
  keeps none).\<close>

function passes :: "real \<Rightarrow> grid \<Rightarrow> labels \<times> int \<Rightarrow> nat" where
  "passes t g s = (if snd (pass t g s) > 0 then Suc (passes t g (pass t g s)) else 1)"
  by pat_completeness auto

text \<open>The vector that is returned, read off the labels.\<close>

definition tabulate :: "nat \<Rightarrow> nat \<Rightarrow> labels \<Rightarrow> int list list" where
  "tabulate rows cols lab = map (\<lambda>i. map (\<lambda>j. lab (i, j)) [0..<cols]) [0..<rows]"

text \<open>\<open>find_ground\<close> reads \<open>last_grid[0].size()\<close> and writes \<open>is_ground[min_i][min_j]\<close>
  without a test: on a grid with no row or no column both are out of range.\<close>

definition find_ground :: "real \<Rightarrow> grid \<Rightarrow> fault + int list list" where
  "find_ground t g =
     (if g = [] then Inl Out_of_range
      else if g ! 0 = [] then Inl Out_of_range
      else Inr (tabulate (length g) (length (g ! 0))
                  (fst (outer t g (\<lambda>c. - 1, initial_count g)))))"

subsection \<open>The rasterizer: \<open>gridify\<close>\<close>

text \<open>
  \<open>gridify\<close> reads the globals \<open>points\<close>, \<open>point_density\<close>, the bounding box and the
  threshold, and writes \<open>elevation\<close>, \<open>min_elevation\<close>, \<open>last_grid\<close> and \<open>is_ground\<close>.
  The model takes the first as arguments and returns the second as a record. The fields
  \<open>x\<close>, \<open>y\<close>, \<open>z\<close> of a point are \<open>p_x\<close>, \<open>p_y\<close>, \<open>p_z\<close>.
\<close>

record lidarPoint =
  p_x :: real
  p_y :: real
  p_z :: real
  nb_of_returns :: int
  return_number :: int
  code :: int
  mycode :: int

record bounds =
  minx :: real
  maxx :: real
  miny :: real
  maxy :: real
  minz :: real
  maxz :: real

text \<open>The bounding box as \<open>readPointsFromFile\<close> keeps it: the first point sets all six
  values, every later point widens them. The globals are zero before any point is read.\<close>

definition widen :: "lidarPoint \<Rightarrow> bounds \<Rightarrow> bounds" where
  "widen p b =
     \<lparr>minx = (if minx b > p_x p then p_x p else minx b),
      maxx = (if maxx b < p_x p then p_x p else maxx b),
      miny = (if miny b > p_y p then p_y p else miny b),
      maxy = (if maxy b < p_y p then p_y p else maxy b),
      minz = (if minz b > p_z p then p_z p else minz b),
      maxz = (if maxz b < p_z p then p_z p else maxz b)\<rparr>"

fun bounding_box :: "lidarPoint list \<Rightarrow> bounds" where
  "bounding_box [] = \<lparr>minx = 0, maxx = 0, miny = 0, maxy = 0, minz = 0, maxz = 0\<rparr>"
| "bounding_box (p # ps) =
     fold widen ps \<lparr>minx = p_x p, maxx = p_x p, miny = p_y p, maxy = p_y p,
                    minz = p_z p, maxz = p_z p\<rparr>"

text \<open>The two grids of sample lists, \<open>first_returns\<close> and \<open>last_returns\<close>.\<close>

type_synonym bins = "(cell \<Rightarrow> real list) \<times> (cell \<Rightarrow> real list)"

text \<open>The body of the loop over the points. \<open>last_returns[r][c]\<close> is reached for every
  point, so an index outside \<open>rows\<close> by \<open>cols\<close> is always an access out of range. The
  second test is written as the source has it.\<close>

definition bin_point :: "bounds \<Rightarrow> real \<Rightarrow> int \<Rightarrow> int \<Rightarrow> lidarPoint \<Rightarrow> bins \<Rightarrow> fault + bins" where
  "bin_point b delta rows cols p fl =
     (let r = \<lfloor>(p_y p - miny b) / delta\<rfloor>; c = \<lfloor>(p_x p - minx b) / delta\<rfloor> in
      if r < 0 \<or> rows \<le> r \<or> c < 0 \<or> cols \<le> c then Inl Out_of_range
      else
        (let first_returns =
               (if return_number p = 1
                then (fst fl)((nat r, nat c) := fst fl (nat r, nat c) @ [p_z p]) else fst fl);
             last_returns =
               (if return_number p = return_number p
                then (snd fl)((nat r, nat c) := snd fl (nat r, nat c) @ [p_z p]) else snd fl)
         in Inr (first_returns, last_returns)))"

text \<open>A loop whose body can leave defined behaviour stops there.\<close>

fun fold_fault :: "('a \<Rightarrow> 's \<Rightarrow> fault + 's) \<Rightarrow> 'a list \<Rightarrow> 's \<Rightarrow> fault + 's" where
  "fold_fault f [] s = Inr s"
| "fold_fault f (a # as) s = (case f a s of Inl e \<Rightarrow> Inl e | Inr s' \<Rightarrow> fold_fault f as s')"

definition bin_points :: "bounds \<Rightarrow> real \<Rightarrow> int \<Rightarrow> int \<Rightarrow> lidarPoint list \<Rightarrow> fault + bins" where
  "bin_points b delta rows cols points =
     fold_fault (bin_point b delta rows cols) points (\<lambda>c. [], \<lambda>c. [])"

text \<open>\<open>avg_height\<close>, \<open>avg_depth\<close> and \<open>min_elevation\<close>.\<close>

type_synonym averages = "(cell \<Rightarrow> real) \<times> (cell \<Rightarrow> real) \<times> real"

text \<open>The body of the averaging loops for one pair \<open>(i, j)\<close>. Both loops run to
  \<open>first_returns.size()\<close>, the number of rows, so \<open>j\<close> can pass the number of columns:
  then \<open>first_returns[i][j]\<close> is read out of range.\<close>

definition average_cell :: "nat \<Rightarrow> bins \<Rightarrow> cell \<Rightarrow> averages \<Rightarrow> fault + averages" where
  "average_cell cols fl c a =
     (case a of (avg_height, avg_depth, min_elevation) \<Rightarrow>
      if cols \<le> snd c then Inl Out_of_range
      else
        (let height_sum = sum_list (fst fl c);
             depth_sum = sum_list (snd fl c);
             k = length (fst fl c);
             l = length (snd fl c);
             avg_height' = (if k > 0 then avg_height(c := height_sum / real k) else avg_height);
             avg_depth' = (if l > 0 then avg_depth(c := depth_sum / real l) else avg_depth)
         in Inr (avg_height', avg_depth',
                 if avg_height' c \<noteq> NODATA \<and> avg_height' c < min_elevation
                 then avg_height' c else min_elevation)))"

text \<open>The two averaging loops; \<open>min_elevation\<close> starts at \<open>maxz\<close>.\<close>

definition average :: "nat \<Rightarrow> nat \<Rightarrow> real \<Rightarrow> bins \<Rightarrow> fault + averages" where
  "average rows cols max_z fl =
     fold_fault (average_cell cols fl)
       (concat (map (\<lambda>i. map (\<lambda>j. (i, j)) [0..<rows]) [0..<rows]))
       (\<lambda>c. NODATA, \<lambda>c. NODATA, max_z)"

definition tabulate_grid :: "nat \<Rightarrow> nat \<Rightarrow> (cell \<Rightarrow> real) \<Rightarrow> grid" where
  "tabulate_grid rows cols a = map (\<lambda>i. map (\<lambda>j. a (i, j)) [0..<cols]) [0..<rows]"

record grids =
  elevation :: grid
  min_elevation :: real
  last_grid :: grid
  is_ground :: "int list list"

text \<open>\<open>points.size()/point_density\<close> divides a \<open>size_t\<close> by an \<open>int\<close>: the density is
  converted to the unsigned type (64 bits) first.\<close>

definition num_cells :: "lidarPoint list \<Rightarrow> int \<Rightarrow> int" where
  "num_cells points point_density = int (length points) div (point_density mod 2 ^ 64)"

text \<open>\<open>delta = sqrt(h*w/float(num_cells))\<close>.\<close>

definition cell_size :: "bounds \<Rightarrow> int \<Rightarrow> real" where
  "cell_size b n = sqrt ((maxy b - miny b) * (maxx b - minx b) / real_of_int n)"

text \<open>The divisions are guarded in the model where the source divides unguarded: by
  \<open>point_density\<close>, by \<open>num_cells\<close> and by \<open>delta\<close>. The square root of a negative number
  is NaN, whose conversion to \<open>int\<close> is undefined.\<close>

definition gridify :: "int \<Rightarrow> real \<Rightarrow> bounds \<Rightarrow> lidarPoint list \<Rightarrow> fault + grids" where
  "gridify point_density building_slope_threshold b points =
     (if point_density = 0 then Inl Division_by_zero
      else if num_cells points point_density = 0 then Inl Division_by_zero
      else if (maxy b - miny b) * (maxx b - minx b) / real_of_int (num_cells points point_density) < 0
      then Inl Not_a_number
      else
        (let h = maxy b - miny b;
             w = maxx b - minx b;
             delta = cell_size b (num_cells points point_density)
         in
         if delta = 0 then Inl Division_by_zero
         else
           (let rows = \<lceil>h / delta\<rceil>; cols = \<lceil>w / delta\<rceil> in
            if rows < 0 \<or> cols < 0 then Inl Negative_size
            else
              (case bin_points b delta rows cols points of
                 Inl e \<Rightarrow> Inl e
               | Inr fl \<Rightarrow>
                  (case average (nat rows) (nat cols) (maxz b) fl of
                     Inl e \<Rightarrow> Inl e
                   | Inr a \<Rightarrow>
                      (case find_ground building_slope_threshold
                              (tabulate_grid (nat rows) (nat cols) (fst (snd a))) of
                         Inl e \<Rightarrow> Inl e
                       | Inr ig \<Rightarrow>
                          Inr \<lparr>elevation = tabulate_grid (nat rows) (nat cols) (fst a),
                               min_elevation = snd (snd a),
                               last_grid = tabulate_grid (nat rows) (nat cols) (fst (snd a)),
                               is_ground = ig\<rparr>))))))"

section \<open>Notions for the statements and the proofs\<close>

subsection \<open>Cells, reachability and the measure of the queue loop\<close>

text \<open>The index pairs that pass the bounds check, \<open>num_rows\<close> by \<open>num_cols\<close> with
  \<open>num_cols = last_grid[0].size()\<close>.\<close>

definition inside :: "grid \<Rightarrow> cell set" where
  "inside g = {..<length g} \<times> {..<length (g ! 0)}"

text \<open>The cells inside the bounds that are still -1.\<close>

definition unvisited :: "grid \<Rightarrow> labels \<Rightarrow> cell set" where
  "unvisited g lab = {c \<in> inside g. lab c = - 1}"

text \<open>Twice the number of unvisited cells plus the length of the queue: it falls with every
  iteration of the queue loop.\<close>

definition bfs_measure :: "grid \<Rightarrow> bfs_state \<Rightarrow> nat" where
  "bfs_measure g st = (case st of (lab, q, cnt) \<Rightarrow> 2 * card (unvisited g lab) + length q)"

text \<open>The elevation at a cell.\<close>

definition elev :: "grid \<Rightarrow> cell \<Rightarrow> real" where
  "elev g c = g ! fst c ! snd c"

text \<open>The neighbour of a queue entry in a direction.\<close>

definition target :: "entry \<Rightarrow> int \<times> int \<Rightarrow> cell" where
  "target cur d = (nat (int (fst cur) + fst d), nat (int (fst (snd cur)) + snd d))"

text \<open>The bounds check of the source.\<close>

definition in_bounds :: "grid \<Rightarrow> entry \<Rightarrow> int \<times> int \<Rightarrow> bool" where
  "in_bounds g cur d = (int (fst cur) + fst d \<ge> 0 \<and> int (fst (snd cur)) + snd d \<ge> 0 \<and>
     int (fst cur) + fst d < int (length g) \<and> int (fst (snd cur)) + snd d < int (length (g ! 0)))"

text \<open>A visit labels the neighbour exactly when it is inside, unvisited, holds data and the
  slope is not negative or is above the threshold.\<close>

definition reaches :: "real \<Rightarrow> grid \<Rightarrow> labels \<Rightarrow> entry \<Rightarrow> int \<times> int \<Rightarrow> bool" where
  "reaches t g lab cur d = (in_bounds g cur d \<and> lab (target cur d) = - 1 \<and>
     elev g (target cur d) \<noteq> NODATA \<and>
     (0 \<le> elev g (target cur d) - snd (snd cur) \<or> t < elev g (target cur d) - snd (snd cur)))"

text \<open>The label the neighbour gets.\<close>

definition mark :: "real \<Rightarrow> grid \<Rightarrow> entry \<Rightarrow> int \<Rightarrow> int \<times> int \<Rightarrow> int" where
  "mark t g cur ct d = (if elev g (target cur d) - snd (snd cur) \<le> t then ct else 0)"

text \<open>The queue entry of a cell with its own elevation.\<close>

definition true_entry :: "grid \<Rightarrow> cell \<Rightarrow> entry" where
  "true_entry g c = (fst c, snd c, elev g c)"

text \<open>The state after a visit that labels the neighbour.\<close>

definition fire :: "real \<Rightarrow> grid \<Rightarrow> entry \<Rightarrow> int \<Rightarrow> int \<times> int \<Rightarrow> bfs_state \<Rightarrow> bfs_state" where
  "fire t g cur ct d st =
     ((fst st)(target cur d := mark t g cur ct d),
      fst (snd st) @ [true_entry g (target cur d)], snd (snd st) - 1)"

text \<open>The height a queue entry carries.\<close>

definition height :: "entry \<Rightarrow> real" where
  "height e = snd (snd e)"

text \<open>A cell the seed search considers: it holds data and is unvisited.\<close>

definition cand :: "grid \<Rightarrow> labels \<Rightarrow> cell \<Rightarrow> bool" where
  "cand g lab c = (elev g c \<noteq> NODATA \<and> lab c = - 1)"

text \<open>Every row has the length of the first.\<close>

definition rect :: "grid \<Rightarrow> bool" where
  "rect g = (\<forall>row \<in> set g. length row = length (g ! 0))"

text \<open>The cells the loops can touch.\<close>

definition cells :: "grid \<Rightarrow> cell set" where
  "cells g = inside g \<union> set (scan g)"

text \<open>The cells that hold data and wait for a label.\<close>

definition pending :: "grid \<Rightarrow> labels \<Rightarrow> cell set" where
  "pending g lab = {c \<in> cells g. cand g lab c}"

text \<open>Every cell of the grid is NODATA.\<close>

definition all_nodata :: "grid \<Rightarrow> bool" where
  "all_nodata g = (\<forall>row \<in> set g. \<forall>v \<in> set row. v = NODATA)"

text \<open>Every elevation that is not NODATA is below BIGINT.\<close>

definition bounded :: "grid \<Rightarrow> bool" where
  "bounded g = (\<forall>c \<in> inside g. elev g c \<noteq> NODATA \<longrightarrow> elev g c < BIGINT)"

text \<open>Every cell holds the elevation \<open>v\<close>.\<close>

definition level :: "grid \<Rightarrow> real \<Rightarrow> bool" where
  "level g v = (\<forall>c \<in> inside g. elev g c = v)"

text \<open>All labels are 1 or -1, and every queue entry carries the height \<open>v\<close> and a
  Ground cell.\<close>

definition ground_front :: "real \<Rightarrow> bfs_state \<Rightarrow> bool" where
  "ground_front v st = ((\<forall>c. fst st c = 1 \<or> fst st c = - 1) \<and>
     (\<forall>e \<in> set (fst (snd st)). height e = v \<and> fst st (cell_of e) = 1))"

text \<open>All labels are 1 or -1, and the counter is the number of pending cells.\<close>

definition settled :: "grid \<Rightarrow> labels \<times> int \<Rightarrow> bool" where
  "settled g s = ((\<forall>c. fst s c = 1 \<or> fst s c = - 1) \<and> snd s = int (card (pending g (fst s))))"







subsection \<open>Concrete inputs\<close>

text \<open>Three returns: a pulse with two returns over the origin (30 from the canopy, 10
  from the ground below it) and a single return at the far corner.\<close>

definition canopy :: lidarPoint where
  "canopy = \<lparr>p_x = 0, p_y = 0, p_z = 30, nb_of_returns = 2, return_number = 1,
              code = 5, mycode = 0\<rparr>"

definition below :: lidarPoint where
  "below = \<lparr>p_x = 0, p_y = 0, p_z = 10, nb_of_returns = 2, return_number = 2,
             code = 2, mycode = 0\<rparr>"

definition corner :: lidarPoint where
  "corner = \<lparr>p_x = 9, p_y = 4, p_z = 7, nb_of_returns = 1, return_number = 1,
              code = 2, mycode = 0\<rparr>"

definition box_9_4 :: bounds where
  "box_9_4 = \<lparr>minx = 0, maxx = 9, miny = 0, maxy = 4, minz = 7, maxz = 30\<rparr>"

text \<open>Two single returns at opposite corners of a 9 by 4 box, and two at opposite corners
  of a unit square.\<close>

definition near :: lidarPoint where
  "near = \<lparr>p_x = 0, p_y = 0, p_z = 3, nb_of_returns = 1, return_number = 1,
            code = 2, mycode = 0\<rparr>"

definition far :: lidarPoint where
  "far = \<lparr>p_x = 9, p_y = 4, p_z = 4, nb_of_returns = 1, return_number = 1,
           code = 2, mycode = 0\<rparr>"

definition box_two :: bounds where
  "box_two = \<lparr>minx = 0, maxx = 9, miny = 0, maxy = 4, minz = 3, maxz = 4\<rparr>"

definition unit_near :: lidarPoint where
  "unit_near = \<lparr>p_x = 0, p_y = 0, p_z = 3, nb_of_returns = 1, return_number = 1,
                 code = 2, mycode = 0\<rparr>"

definition unit_far :: lidarPoint where
  "unit_far = \<lparr>p_x = 1, p_y = 1, p_z = 4, nb_of_returns = 1, return_number = 1,
                code = 2, mycode = 0\<rparr>"

definition unit_box :: bounds where
  "unit_box = \<lparr>minx = 0, maxx = 1, miny = 0, maxy = 1, minz = 3, maxz = 4\<rparr>"

section \<open>Termination\<close>

lemma visit_alt:
  "visit t g cur ct d (lab, q, cnt) =
     (if reaches t g lab cur d
      then (lab(target cur d := mark t g cur ct d),
            q @ [(fst (target cur d), snd (target cur d), elev g (target cur d))], cnt - 1)
      else (lab, q, cnt))"
proof -
  obtain ci cj ch where cur: "cur = (ci, cj, ch)" by (cases cur)
  obtain di dj where d: "d = (di, dj)" by (cases d)
  show ?thesis
    unfolding cur d
    by (simp add: Let_def reaches_def in_bounds_def target_def elev_def mark_def)
qed

declare visit.simps [simp del]

lemma finite_unvisited: "finite (unvisited g lab)"
  by (simp add: unvisited_def inside_def)

lemma unvisited_upd:
  "v \<noteq> - 1 \<Longrightarrow> unvisited g (lab(c := v)) = unvisited g lab - {c}"
  by (auto simp: unvisited_def)

lemma reaches_unvisited: "reaches t g lab cur d \<Longrightarrow> target cur d \<in> unvisited g lab"
  by (auto simp: reaches_def in_bounds_def target_def unvisited_def inside_def)

lemma visit_measure:
  assumes "ct \<noteq> - 1"
  shows "bfs_measure g (visit t g cur ct d st) \<le> bfs_measure g st"
proof -
  obtain lab q cnt where st: "st = (lab, q, cnt)" by (cases st)
  show ?thesis
  proof (cases "reaches t g lab cur d")
    case False
    then show ?thesis by (simp add: st visit_alt)
  next
    case True
    then have "target cur d \<in> unvisited g lab" by (rule reaches_unvisited)
    then have "card (unvisited g lab - {target cur d}) < card (unvisited g lab)"
      using finite_unvisited by (meson card_Diff1_less)
    moreover have "mark t g cur ct d \<noteq> - 1"
      using assms by (simp add: mark_def)
    ultimately show ?thesis
      using True by (simp add: st visit_alt bfs_measure_def unvisited_upd)
  qed
qed

lemma fold_visit_measure:
  assumes "ct \<noteq> - 1"
  shows "bfs_measure g (fold (visit t g cur ct) ds st) \<le> bfs_measure g st"
proof (induction ds arbitrary: st)
  case Nil
  show ?case by simp
next
  case (Cons d ds)
  have "bfs_measure g (fold (visit t g cur ct) ds (visit t g cur ct d st))
      \<le> bfs_measure g (visit t g cur ct d st)"
    by (rule Cons.IH)
  also have "\<dots> \<le> bfs_measure g st"
    by (rule visit_measure[OF assms])
  finally show ?case by simp
qed

lemma curr_type_range: "curr_type lab cur = 0 \<or> curr_type lab cur = 1"
  by (cases cur) (simp add: curr_type_def)

lemma expand_measure: "bfs_measure g (expand t g cur st) \<le> bfs_measure g st"
proof -
  have "curr_type (fst st) cur \<noteq> - 1"
    using curr_type_range[of "fst st" cur] by auto
  then show ?thesis
    unfolding expand_def by (rule fold_visit_measure)
qed

termination bfs
proof (relation "measure (\<lambda>(t, g, st). bfs_measure g st)")
  show "wf (measure (\<lambda>(t, g, st). bfs_measure g st))" by simp
next
  fix t :: real and g :: grid and lab :: labels and cur :: entry and q :: "entry list" and cnt :: int
  have "bfs_measure g (expand t g cur (lab, q, cnt)) \<le> bfs_measure g (lab, q, cnt)"
    by (rule expand_measure)
  also have "\<dots> < bfs_measure g (lab, cur # q, cnt)"
    by (simp add: bfs_measure_def)
  finally show "((t, g, expand t g cur (lab, q, cnt)), (t, g, lab, cur # q, cnt))
      \<in> measure (\<lambda>(t, g, st). bfs_measure g st)"
    by simp
qed

declare bfs.simps [simp del]

lemma visit_cnt: "snd (snd (visit t g cur ct d st)) \<le> snd (snd st)"
  by (cases st) (simp add: visit_alt)

lemma fold_visit_cnt: "snd (snd (fold (visit t g cur ct) ds st)) \<le> snd (snd st)"
proof (induction ds arbitrary: st)
  case Nil
  show ?case by simp
next
  case (Cons d ds)
  have "snd (snd (fold (visit t g cur ct) ds (visit t g cur ct d st)))
      \<le> snd (snd (visit t g cur ct d st))"
    by (rule Cons.IH)
  also have "\<dots> \<le> snd (snd st)" by (rule visit_cnt)
  finally show ?case by simp
qed

lemma bfs_cnt: "snd (snd (bfs t g st)) \<le> snd (snd st)"
proof (induction t g st rule: bfs.induct)
  case (1 t g lab cnt)
  show ?case by (simp add: bfs.simps)
next
  case (2 t g lab cur q cnt)
  have "snd (snd (expand t g cur (lab, q, cnt))) \<le> cnt"
    using fold_visit_cnt[of t g cur _ compass "(lab, q, cnt)"] by (simp add: expand_def)
  with 2 show ?case by (simp add: bfs.simps)
qed

lemma pass_cnt: "snd (pass t g s) < snd s"
  using bfs_cnt[of t g "((fst s)(cell_of (find_min g (fst s)) := 1), [find_min g (fst s)], snd s - 1)"]
  by (simp add: pass_def Let_def)

termination outer
proof (relation "measure (\<lambda>(t, g, s). nat (snd s))")
  show "wf (measure (\<lambda>(t, g, s). nat (snd s)))" by simp
next
  fix t :: real and g :: grid and s :: "labels \<times> int"
  assume "0 < snd (pass t g s)"
  then show "((t, g, pass t g s), (t, g, s)) \<in> measure (\<lambda>(t, g, s). nat (snd s))"
    using pass_cnt[of t g s] by simp
qed

declare outer.simps [simp del]

termination passes
proof (relation "measure (\<lambda>(t, g, s). nat (snd s))")
  show "wf (measure (\<lambda>(t, g, s). nat (snd s)))" by simp
next
  fix t :: real and g :: grid and s :: "labels \<times> int"
  assume "0 < snd (pass t g s)"
  then show "((t, g, pass t g s), (t, g, s)) \<in> measure (\<lambda>(t, g, s). nat (snd s))"
    using pass_cnt[of t g s] by simp
qed

declare passes.simps [simp del]

section \<open>Invariants of the queue loop\<close>

text \<open>A visit either changes nothing or labels the neighbour; a property that every such
  labelling keeps holds after the four visits and after the whole loop.\<close>

lemma visit_fire:
  "visit t g cur ct d st = (if reaches t g (fst st) cur d then fire t g cur ct d st else st)"
  by (cases st) (simp add: visit_alt fire_def true_entry_def)

lemma fold_visit_rule:
  assumes "P st"
    and "\<And>s d. P s \<Longrightarrow> d \<in> set ds \<Longrightarrow> reaches t g (fst s) cur d \<Longrightarrow> P (fire t g cur ct d s)"
  shows "P (fold (visit t g cur ct) ds st)"
  using assms
proof (induction ds arbitrary: st)
  case Nil
  then show ?case by simp
next
  case (Cons d ds)
  have "P (visit t g cur ct d st)"
    using Cons.prems by (simp add: visit_fire)
  then show ?case
    using Cons.IH Cons.prems(2) by simp
qed

lemma expand_rule:
  assumes "P st"
    and "\<And>s d. P s \<Longrightarrow> d \<in> set compass \<Longrightarrow> reaches t g (fst s) cur d \<Longrightarrow>
           P (fire t g cur (curr_type (fst st) cur) d s)"
  shows "P (expand t g cur st)"
  unfolding expand_def using assms by (rule fold_visit_rule)

lemma bfs_rule:
  assumes "I st"
    and "\<And>lab cur q cnt. I (lab, cur # q, cnt) \<Longrightarrow> I (expand t g cur (lab, q, cnt))"
  shows "I (bfs t g st)"
  using assms
proof (induction t g st rule: bfs.induct)
  case (1 t g lab cnt)
  then show ?case by (simp add: bfs.simps)
next
  case (2 t g lab cur q cnt)
  have "I (expand t g cur (lab, q, cnt))"
    using "2.prems" by blast
  then have "I (bfs t g (expand t g cur (lab, q, cnt)))"
    using "2.IH" "2.prems"(2) by blast
  then show ?case by (simp add: bfs.simps)
qed

text \<open>An invariant of the labels and the counter alone holds after the queue loop when
  every single labelling keeps it.\<close>

lemma bfs_fire_rule:
  assumes "P (fst st) (snd (snd st))"
    and "\<And>lab cnt cur ct d. P lab cnt \<Longrightarrow> reaches t g lab cur d \<Longrightarrow> ct = 0 \<or> ct = 1 \<Longrightarrow>
           P (lab(target cur d := mark t g cur ct d)) (cnt - 1)"
  shows "P (fst (bfs t g st)) (snd (snd (bfs t g st)))"
proof -
  have "(\<lambda>s. P (fst s) (snd (snd s))) (bfs t g st)"
  proof (rule bfs_rule)
    show "P (fst st) (snd (snd st))" by (rule assms(1))
  next
    fix lab :: labels and cur :: entry and q :: "entry list" and cnt :: int
    assume "P (fst (lab, cur # q, cnt)) (snd (snd (lab, cur # q, cnt)))"
    then have start: "P (fst (lab, q, cnt)) (snd (snd (lab, q, cnt)))" by simp
    show "P (fst (expand t g cur (lab, q, cnt))) (snd (snd (expand t g cur (lab, q, cnt))))"
    proof (rule expand_rule[where P = "\<lambda>s. P (fst s) (snd (snd s))"])
      show "P (fst (lab, q, cnt)) (snd (snd (lab, q, cnt)))" by (rule start)
    next
      fix s :: bfs_state and d :: "int \<times> int"
      assume "P (fst s) (snd (snd s))" "reaches t g (fst s) cur d"
      then show "P (fst (fire t g cur (curr_type (fst (lab, q, cnt)) cur) d s))
                   (snd (snd (fire t g cur (curr_type (fst (lab, q, cnt)) cur) d s)))"
        using assms(2)[of "fst s" "snd (snd s)" cur d] curr_type_range[of lab cur]
        by (auto simp: fire_def)
    qed
  qed
  then show ?thesis .
qed

lemma bfs_queue_empty: "fst (snd (bfs t g st)) = []"
  by (induction t g st rule: bfs.induct) (simp_all add: bfs.simps)

lemma mark_range: "ct = 0 \<or> ct = 1 \<Longrightarrow> mark t g cur ct d = 0 \<or> mark t g cur ct d = 1"
  by (auto simp: mark_def)

lemma bfs_stable:
  assumes "lab c \<noteq> - 1"
  shows "fst (bfs t g (lab, q, cnt)) c = lab c"
proof -
  have "(\<lambda>l n. l c = lab c) (fst (bfs t g (lab, q, cnt))) (snd (snd (bfs t g (lab, q, cnt))))"
  proof (rule bfs_fire_rule)
    show "fst (lab, q, cnt) c = lab c" by simp
  next
    fix l :: labels and n :: int and cur :: entry and ct :: int and d :: "int \<times> int"
    assume "l c = lab c" "reaches t g l cur d"
    then show "(l(target cur d := mark t g cur ct d)) c = lab c"
      using assms by (auto simp: reaches_def)
  qed
  then show ?thesis .
qed


section \<open>The seed search and the counter\<close>

lemma set_scan: "set (scan g) = {(i, j). i < length g \<and> j < length (g ! i)}"
  by (auto simp: scan_def)

lemma rect_row: "rect g \<Longrightarrow> i < length g \<Longrightarrow> length (g ! i) = length (g ! 0)"
  by (simp add: rect_def)

lemma scan_inside: "rect g \<Longrightarrow> set (scan g) = inside g"
  by (auto simp: set_scan inside_def rect_row)

lemma distinct_rows:
  assumes "distinct is" "\<And>i. distinct (f i)"
  shows "distinct (concat (map (\<lambda>i. map (\<lambda>j. (i, j)) (f i)) is))"
  using assms(1)
proof (induction "is")
  case Nil
  show ?case by simp
next
  case (Cons i "is")
  have "distinct (map (\<lambda>j. (i, j)) (f i))"
    using assms(2) by (simp add: distinct_map inj_on_def)
  moreover have "set (map (\<lambda>j. (i, j)) (f i)) \<inter>
      set (concat (map (\<lambda>i. map (\<lambda>j. (i, j)) (f i)) is)) = {}"
    using Cons.prems by auto
  ultimately show ?case
    using Cons by simp
qed

lemma distinct_scan: "distinct (scan g)"
  unfolding scan_def by (rule distinct_rows) simp_all

lemma lower_alt:
  "lower g lab c m = (if cand g lab c \<and> elev g c < height m then true_entry g c else m)"
  by (cases c; cases m) (auto simp: lower_def cand_def elev_def height_def true_entry_def)

lemma cell_of_true_entry [simp]: "cell_of (true_entry g c) = c"
  by (simp add: cell_of_def true_entry_def)

lemma height_true_entry [simp]: "height (true_entry g c) = elev g c"
  by (simp add: height_def true_entry_def)

lemma height_start [simp]: "height (0, 0, BIGINT) = BIGINT"
  by (simp add: height_def)

text \<open>The seed search keeps the first cell of lowest elevation among the cells it
  considers, if one is below the starting height.\<close>

lemma fold_lower_snoc:
  "fold (lower g lab) (cs @ [c]) m =
     (if cand g lab c \<and> elev g c < height (fold (lower g lab) cs m)
      then true_entry g c else fold (lower g lab) cs m)"
  using lower_alt[of g lab c "fold (lower g lab) cs m"] by simp

lemma fold_lower_le: "height (fold (lower g lab) cs m) \<le> height m"
proof (induction cs rule: rev_induct)
  case Nil
  show ?case by simp
next
  case (snoc c cs)
  then show ?case unfolding fold_lower_snoc by auto
qed

lemma fold_lower_least:
  assumes "c \<in> set cs" "cand g lab c"
  shows "height (fold (lower g lab) cs m) \<le> elev g c"
  using assms(1)
proof (induction cs rule: rev_induct)
  case Nil
  then show ?case by simp
next
  case (snoc c' cs)
  show ?case
  proof (cases "c = c'")
    case True
    then show ?thesis using assms(2) unfolding fold_lower_snoc by auto
  next
    case False
    with snoc have "height (fold (lower g lab) cs m) \<le> elev g c" by simp
    then show ?thesis unfolding fold_lower_snoc by auto
  qed
qed

lemma fold_lower_pick:
  "fold (lower g lab) cs m = m \<or>
     (cell_of (fold (lower g lab) cs m) \<in> set cs \<and>
      cand g lab (cell_of (fold (lower g lab) cs m)) \<and>
      fold (lower g lab) cs m = true_entry g (cell_of (fold (lower g lab) cs m)) \<and>
      height (fold (lower g lab) cs m) < height m)"
proof (induction cs rule: rev_induct)
  case Nil
  show ?case by simp
next
  case (snoc c cs)
  let ?r = "fold (lower g lab) cs m"
  show ?case
  proof (cases "cand g lab c \<and> elev g c < height ?r")
    case True
    then have r: "fold (lower g lab) (cs @ [c]) m = true_entry g c"
      unfolding fold_lower_snoc by simp
    have "elev g c < height m" using True fold_lower_le[of g lab cs m] by simp
    then show ?thesis unfolding r using True by simp
  next
    case False
    then have r: "fold (lower g lab) (cs @ [c]) m = ?r"
      unfolding fold_lower_snoc by auto
    show ?thesis unfolding r using snoc by auto
  qed
qed

lemma find_min_none:
  assumes "\<forall>c \<in> set (scan g). cand g lab c \<longrightarrow> BIGINT \<le> elev g c"
  shows "find_min g lab = (0, 0, BIGINT)"
proof (rule ccontr)
  let ?r = "find_min g lab"
  assume "?r \<noteq> (0, 0, BIGINT)"
  then have "cell_of ?r \<in> set (scan g)" "cand g lab (cell_of ?r)"
    "?r = true_entry g (cell_of ?r)" "height ?r < BIGINT"
    using fold_lower_pick[of g lab "scan g" "(0, 0, BIGINT)"] unfolding find_min_def by auto
  moreover then have "height ?r = elev g (cell_of ?r)"
    by (metis height_true_entry)
  ultimately show False using assms by auto
qed

lemma find_min_some:
  assumes "c \<in> set (scan g)" "cand g lab c" "elev g c < BIGINT"
  shows "cell_of (find_min g lab) \<in> set (scan g) \<and> cand g lab (cell_of (find_min g lab)) \<and>
         find_min g lab = true_entry g (cell_of (find_min g lab)) \<and>
         height (find_min g lab) < BIGINT"
proof -
  have "height (find_min g lab) \<le> elev g c"
    unfolding find_min_def using assms(1,2) by (rule fold_lower_least)
  then have "find_min g lab \<noteq> (0, 0, BIGINT)"
    using assms(3) by auto
  then show ?thesis
    using fold_lower_pick[of g lab "scan g" "(0, 0, BIGINT)"] unfolding find_min_def by auto
qed


lemma finite_pending: "finite (pending g lab)"
  by (simp add: pending_def cells_def inside_def)

lemma reaches_pending: "reaches t g lab cur d \<Longrightarrow> target cur d \<in> pending g lab"
  by (auto simp: reaches_def pending_def cells_def cand_def in_bounds_def target_def inside_def)

lemma pending_upd: "v \<noteq> - 1 \<Longrightarrow> pending g (lab(c := v)) = pending g lab - {c}"
  by (auto simp: pending_def cand_def)

lemma card_pending_upd:
  assumes "c \<in> pending g lab" "v \<noteq> - 1"
  shows "int (card (pending g (lab(c := v)))) = int (card (pending g lab)) - 1"
proof -
  have "card (pending g lab) > 0"
    using assms(1) finite_pending by (metis card_gt_0_iff empty_iff)
  then show ?thesis
    using assms finite_pending[of g lab] by (simp add: pending_upd)
qed

lemma mark_not_unvisited: "ct = 0 \<or> ct = 1 \<Longrightarrow> mark t g cur ct d \<noteq> - 1"
  using mark_range[of ct t g cur d] by auto

lemma bfs_count:
  "snd (snd (bfs t g (lab, q, cnt))) - int (card (pending g (fst (bfs t g (lab, q, cnt)))))
     = cnt - int (card (pending g lab))"
proof -
  let ?P = "\<lambda>l n. n - int (card (pending g l)) = cnt - int (card (pending g lab))"
  have "?P (fst (bfs t g (lab, q, cnt))) (snd (snd (bfs t g (lab, q, cnt))))"
  proof (rule bfs_fire_rule)
    show "?P (fst (lab, q, cnt)) (snd (snd (lab, q, cnt)))" by simp
  next
    fix l :: labels and n :: int and cur :: entry and ct :: int and d :: "int \<times> int"
    assume P: "?P l n" and r: "reaches t g l cur d" and ct: "ct = 0 \<or> ct = 1"
    have "int (card (pending g (l(target cur d := mark t g cur ct d))))
        = int (card (pending g l)) - 1"
      using reaches_pending[OF r] mark_not_unvisited[OF ct] by (rule card_pending_upd)
    with P show "?P (l(target cur d := mark t g cur ct d)) (n - 1)" by simp
  qed
  then show ?thesis .
qed

lemma outer_funpow: "outer t g s = (pass t g ^^ passes t g s) s"
proof (induction t g s rule: outer.induct)
  case (1 t g s)
  show ?case
  proof (cases "snd (pass t g s) > 0")
    case True
    then have "outer t g s = outer t g (pass t g s)"
      by (subst outer.simps) simp
    also have "\<dots> = (pass t g ^^ passes t g (pass t g s)) (pass t g s)"
      using 1 True by simp
    also have "\<dots> = (pass t g ^^ passes t g s) s"
      using True by (subst (2) passes.simps) (simp add: funpow_swap1)
    finally show ?thesis .
  next
    case False
    then show ?thesis
      by (subst outer.simps, subst passes.simps) simp
  qed
qed

lemma passes_bound: "passes t g s \<le> max 1 (nat (snd s))"
proof (induction t g s rule: passes.induct)
  case (1 t g s)
  show ?case
  proof (cases "snd (pass t g s) > 0")
    case True
    then have "passes t g s = Suc (passes t g (pass t g s))"
      by (subst passes.simps) simp
    also have "\<dots> \<le> Suc (max 1 (nat (snd (pass t g s))))"
      using 1 True by simp
    also have "\<dots> \<le> max 1 (nat (snd s))"
      using True pass_cnt[of t g s] by simp
    finally show ?thesis .
  next
    case False
    then show ?thesis by (subst passes.simps) simp
  qed
qed

lemma fold_count_le:
  "fold (\<lambda>(i, j) n. if g ! i ! j = NODATA then n - 1 else n) cs (n0::int) \<le> n0"
proof (induction cs arbitrary: n0)
  case Nil
  show ?case by simp
next
  case (Cons c cs)
  obtain i j where c: "c = (i, j)" by (cases c)
  have "fold (\<lambda>(i, j) n. if g ! i ! j = NODATA then n - 1 else n) cs
          (if g ! i ! j = NODATA then n0 - 1 else n0) \<le> (if g ! i ! j = NODATA then n0 - 1 else n0)"
    by (rule Cons.IH)
  then show ?case by (simp add: c split: if_splits)
qed

lemma initial_count_le: "initial_count g \<le> int (length g) * int (length (g ! 0))"
  unfolding initial_count_def by (rule fold_count_le)

lemma fold_count_filter:
  "fold (\<lambda>(i, j) n. if g ! i ! j = NODATA then n - 1 else n) cs (n0::int)
     = n0 - int (length (filter (\<lambda>c. elev g c = NODATA) cs))"
proof (induction cs arbitrary: n0)
  case Nil
  show ?case by simp
next
  case (Cons c cs)
  obtain i j where c: "c = (i, j)" by (cases c)
  show ?case by (simp add: c Cons.IH elev_def)
qed

lemma length_scan: "rect g \<Longrightarrow> length (scan g) = length g * length (g ! 0)"
proof -
  assume r: "rect g"
  have "length (scan g) = card (set (scan g))"
    using distinct_scan by (simp add: distinct_card)
  also have "\<dots> = card (inside g)" using r by (simp add: scan_inside)
  also have "\<dots> = length g * length (g ! 0)" by (simp add: inside_def)
  finally show ?thesis .
qed

lemma initial_count_pending:
  assumes "rect g"
  shows "initial_count g = int (card (pending g (\<lambda>c. - 1)))"
proof -
  let ?N = "\<lambda>c. elev g c = NODATA"
  have "length (filter ?N (scan g)) + length (filter (\<lambda>c. \<not> ?N c) (scan g)) = length (scan g)"
    by (rule sum_length_filter_compl)
  then have "int (length (filter ?N (scan g))) + int (length (filter (\<lambda>c. \<not> ?N c) (scan g)))
      = int (length g) * int (length (g ! 0))"
    using length_scan[OF assms] by (metis of_nat_add of_nat_mult)
  then have "initial_count g = int (length (filter (\<lambda>c. \<not> ?N c) (scan g)))"
    by (simp add: initial_count_def fold_count_filter)
  also have "\<dots> = int (card (set (filter (\<lambda>c. \<not> ?N c) (scan g))))"
    using distinct_card[OF distinct_filter[OF distinct_scan[of g], of "\<lambda>c. \<not> ?N c"]] by simp
  also have "set (filter (\<lambda>c. \<not> ?N c) (scan g)) = pending g (\<lambda>c. - 1)"
    using assms by (auto simp: pending_def cells_def cand_def scan_inside)
  finally show ?thesis .
qed

section \<open>Grids of NODATA, seeds that are fresh, level grids\<close>

lemma cells_rect: "rect g \<Longrightarrow> cells g = inside g"
  by (simp add: cells_def scan_inside)

lemma all_nodata_elev:
  assumes "all_nodata g" "rect g" "c \<in> inside g"
  shows "elev g c = NODATA"
proof -
  obtain i j where c: "c = (i, j)" by (cases c)
  from assms(3) have i: "i < length g" and j: "j < length (g ! 0)"
    by (simp_all add: c inside_def)
  from assms(2) i j have "j < length (g ! i)" by (simp add: rect_row)
  then have "g ! i ! j \<in> set (g ! i)" by simp
  moreover have "g ! i \<in> set g" using i by simp
  ultimately show ?thesis
    using assms(1) by (simp add: all_nodata_def elev_def c)
qed

lemma all_nodata_pending:
  assumes "all_nodata g" "rect g"
  shows "pending g lab = {}"
  using all_nodata_elev[OF assms] by (auto simp: pending_def cells_rect[OF assms(2)] cand_def)

lemma bfs_idle:
  assumes "pending g lab = {}"
  shows "bfs t g (lab, q, cnt) = (lab, [], cnt)"
proof -
  have "(\<lambda>l n. l = lab \<and> n = cnt) (fst (bfs t g (lab, q, cnt))) (snd (snd (bfs t g (lab, q, cnt))))"
  proof (rule bfs_fire_rule)
    show "fst (lab, q, cnt) = lab \<and> snd (snd (lab, q, cnt)) = cnt" by simp
  next
    fix l :: labels and n :: int and cur :: entry and ct :: int and d :: "int \<times> int"
    assume "l = lab \<and> n = cnt" "reaches t g l cur d"
    then have False using reaches_pending[of t g lab cur d] assms by simp
    then show "l(target cur d := mark t g cur ct d) = lab \<and> n - 1 = cnt" ..
  qed
  then show ?thesis
    using bfs_queue_empty[of t g "(lab, q, cnt)"] by (cases "bfs t g (lab, q, cnt)") simp
qed

lemma all_nodata_pass:
  assumes "all_nodata g" "rect g"
  shows "pass t g (lab, cnt) = (lab((0, 0) := 1), cnt - 1)"
proof -
  have "find_min g lab = (0, 0, BIGINT)"
  proof (rule find_min_none)
    show "\<forall>c \<in> set (scan g). cand g lab c \<longrightarrow> BIGINT \<le> elev g c"
      using all_nodata_elev[OF assms] by (auto simp: scan_inside[OF assms(2)] cand_def)
  qed
  moreover have "pending g (lab((0, 0) := 1)) = {}"
    using assms by (rule all_nodata_pending)
  ultimately show ?thesis
    by (simp add: pass_def cell_of_def bfs_idle)
qed

lemma pass_unfold:
  "pass t g (lab, cnt) =
     (fst (bfs t g (lab(cell_of (find_min g lab) := 1), [find_min g lab], cnt - 1)),
      snd (snd (bfs t g (lab(cell_of (find_min g lab) := 1), [find_min g lab], cnt - 1))))"
  by (simp add: pass_def Let_def)

lemma pass_stable:
  assumes "lab (cell_of (find_min g lab)) = - 1" "lab c \<noteq> - 1"
  shows "fst (pass t g (lab, cnt)) c = lab c"
proof -
  have "c \<noteq> cell_of (find_min g lab)" using assms by auto
  then have "(lab(cell_of (find_min g lab) := 1)) c = lab c" by simp
  then show ?thesis
    using assms(2) bfs_stable[of "lab(cell_of (find_min g lab) := 1)" c t g] 
    by (simp add: pass_unfold)
qed

lemma pass_count:
  assumes "cell_of (find_min g lab) \<in> pending g lab"
    and "cnt = int (card (pending g lab))"
  shows "snd (pass t g (lab, cnt)) = int (card (pending g (fst (pass t g (lab, cnt)))))"
proof -
  let ?l = "lab(cell_of (find_min g lab) := 1)"
  have "int (card (pending g ?l)) = int (card (pending g lab)) - 1"
    using assms(1) by (rule card_pending_upd) simp
  then show ?thesis
    using bfs_count[of t g ?l "[find_min g lab]" "cnt - 1"] assms(2)
    by (simp add: pass_unfold)
qed

lemma seed_pending:
  assumes "rect g" "bounded g" "pending g lab \<noteq> {}"
  shows "cell_of (find_min g lab) \<in> pending g lab"
proof -
  from assms(3) obtain c where c: "c \<in> cells g" "cand g lab c"
    by (auto simp: pending_def)
  then have "c \<in> set (scan g)" "elev g c < BIGINT"
    using assms(1,2) by (auto simp: cells_rect scan_inside bounded_def cand_def)
  from find_min_some[OF this(1) c(2) this(2)] show ?thesis
    by (simp add: pending_def cells_def)
qed

lemma pending_fresh: "c \<in> pending g lab \<Longrightarrow> lab c = - 1"
  by (simp add: pending_def cand_def)

lemma run_fresh:
  "rect g \<Longrightarrow> bounded g \<Longrightarrow>
   snd s = int (card (pending g (fst s))) \<Longrightarrow> pending g (fst s) \<noteq> {} \<Longrightarrow>
   k < passes t g s \<Longrightarrow>
   cell_of (find_min g (fst ((pass t g ^^ k) s))) \<in> pending g (fst ((pass t g ^^ k) s))"
proof (induction t g s arbitrary: k rule: passes.induct)
  case (1 t g s)
  note rb = "1.prems"(1,2)
  show ?case
  proof (cases k)
    case 0
    then show ?thesis
      using seed_pending[OF rb "1.prems"(4)] by simp
  next
    case (Suc k')
    obtain lab cnt where s: "s = (lab, cnt)" by (cases s)
    have more: "snd (pass t g s) > 0"
      using "1.prems"(5) Suc by (subst (asm) passes.simps) (simp split: if_splits)
    then have k': "k' < passes t g (pass t g s)"
      using "1.prems"(5) Suc by (subst (asm) passes.simps) simp
    have seed: "cell_of (find_min g lab) \<in> pending g lab"
      using seed_pending[OF rb] "1.prems"(4) by (simp add: s)
    have cnt: "snd (pass t g s) = int (card (pending g (fst (pass t g s))))"
      using pass_count[OF seed] "1.prems"(3) by (simp add: s)
    with more have ne: "pending g (fst (pass t g s)) \<noteq> {}" by auto
    have "cell_of (find_min g (fst ((pass t g ^^ k') (pass t g s))))
        \<in> pending g (fst ((pass t g ^^ k') (pass t g s)))"
      using "1.IH"[OF more rb cnt ne k'] .
    then show ?thesis by (simp add: Suc funpow_swap1)
  qed
qed

lemma reaches_inside: "reaches t g lab cur d \<Longrightarrow> target cur d \<in> inside g"
  by (auto simp: reaches_def in_bounds_def target_def inside_def)

lemma reaches_fresh: "reaches t g lab cur d \<Longrightarrow> lab (target cur d) = - 1"
  by (simp add: reaches_def)

lemma curr_type_ground: "lab (cell_of cur) = 1 \<Longrightarrow> curr_type lab cur = 1"
  by (cases cur) (simp add: curr_type_def cell_of_def)

lemma level_fire:
  assumes "level g v" "0 \<le> t" "height cur = v"
    and "ground_front v s" "reaches t g (fst s) cur d"
  shows "ground_front v (fire t g cur 1 d s)"
proof -
  let ?tg = "target cur d"
  have "elev g ?tg = v"
    using assms(1) reaches_inside[OF assms(5)] by (simp add: level_def)
  then have m: "mark t g cur 1 d = 1"
    using assms(2,3) by (simp add: mark_def height_def)
  have fresh: "fst s ?tg = - 1" using assms(5) by (rule reaches_fresh)
  have "\<forall>e \<in> set (fst (snd s)). cell_of e \<noteq> ?tg"
    using assms(4) fresh by (auto simp: ground_front_def)
  then show ?thesis
    using assms(4) \<open>elev g ?tg = v\<close> by (auto simp: ground_front_def fire_def m)
qed

lemma level_expand:
  assumes "level g v" "0 \<le> t" "ground_front v (lab, cur # q, cnt)"
  shows "ground_front v (expand t g cur (lab, q, cnt))"
proof (rule expand_rule)
  show "ground_front v (lab, q, cnt)"
    using assms(3) by (simp add: ground_front_def)
next
  fix s :: bfs_state and d :: "int \<times> int"
  assume s: "ground_front v s" "reaches t g (fst s) cur d"
  have "height cur = v" "lab (cell_of cur) = 1"
    using assms(3) by (simp_all add: ground_front_def)
  then have "curr_type (fst (lab, q, cnt)) cur = 1"
    by (simp add: curr_type_ground)
  then show "ground_front v (fire t g cur (curr_type (fst (lab, q, cnt)) cur) d s)"
    using level_fire[OF assms(1,2) \<open>height cur = v\<close> s] by simp
qed

lemma level_bfs:
  assumes "level g v" "0 \<le> t" "ground_front v st"
  shows "ground_front v (bfs t g st)"
  using assms(3)
proof (rule bfs_rule)
  fix lab :: labels and cur :: entry and q :: "entry list" and cnt :: int
  assume "ground_front v (lab, cur # q, cnt)"
  then show "ground_front v (expand t g cur (lab, q, cnt))"
    by (rule level_expand[OF assms(1,2)])
qed

lemma level_pass:
  assumes "rect g" "bounded g" "level g v" "0 \<le> t"
    and "settled g s" "pending g (fst s) \<noteq> {}"
  shows "settled g (pass t g s)"
proof -
  obtain lab cnt where s: "s = (lab, cnt)" by (cases s)
  let ?m = "find_min g lab"
  have seed: "cell_of ?m \<in> pending g lab"
    using seed_pending[OF assms(1,2)] assms(6) by (simp add: s)
  then have c: "cell_of ?m \<in> inside g" "cand g lab (cell_of ?m)"
    using assms(1) by (simp_all add: pending_def cells_rect)
  then have "cell_of ?m \<in> set (scan g)" using assms(1) by (simp add: scan_inside)
  have "elev g (cell_of ?m) = v" using c(1) assms(3) by (simp add: level_def)
  moreover have "elev g (cell_of ?m) < BIGINT"
    using c assms(2) by (simp add: bounded_def cand_def)
  ultimately have m: "?m = true_entry g (cell_of ?m)" "height ?m = v"
    using find_min_some[OF \<open>cell_of ?m \<in> set (scan g)\<close> c(2)]
    by (simp_all, metis height_true_entry)
  have "ground_front v (lab(cell_of ?m := 1), [?m], cnt - 1)"
    using assms(5) m(2) by (auto simp: ground_front_def settled_def s)
  then have "ground_front v (bfs t g (lab(cell_of ?m := 1), [?m], cnt - 1))"
    by (rule level_bfs[OF assms(3,4)])
  then have "\<forall>c. fst (pass t g s) c = 1 \<or> fst (pass t g s) c = - 1"
    by (simp add: ground_front_def s pass_unfold)
  moreover have "snd (pass t g s) = int (card (pending g (fst (pass t g s))))"
    using pass_count[OF seed] assms(5) by (simp add: settled_def s)
  ultimately show ?thesis by (simp add: settled_def)
qed

lemma level_outer:
  "rect g \<Longrightarrow> bounded g \<Longrightarrow> level g v \<Longrightarrow> v \<noteq> NODATA \<Longrightarrow> 0 \<le> t \<Longrightarrow>
   settled g s \<Longrightarrow> pending g (fst s) \<noteq> {} \<Longrightarrow>
   \<forall>c \<in> inside g. fst (outer t g s) c = 1"
proof (induction t g s rule: outer.induct)
  case (1 t g s)
  have st: "settled g (pass t g s)"
    using level_pass[OF "1.prems"(1,2,3,5,6,7)] .
  show ?case
  proof (cases "snd (pass t g s) > 0")
    case True
    then have "pending g (fst (pass t g s)) \<noteq> {}"
      using st by (auto simp: settled_def)
    then have "\<forall>c \<in> inside g. fst (outer t g (pass t g s)) c = 1"
      using "1.IH"[OF True "1.prems"(1,2,3,4,5) st] by simp
    then show ?thesis using True by (subst outer.simps) simp
  next
    case False
    then have "card (pending g (fst (pass t g s))) = 0"
      using st by (simp add: settled_def)
    then have none: "pending g (fst (pass t g s)) = {}"
      using finite_pending by simp
    have "fst (pass t g s) c = 1" if c: "c \<in> inside g" for c
    proof -
      have "elev g c \<noteq> NODATA" using "1.prems"(3,4) c by (simp add: level_def)
      then have "fst (pass t g s) c = - 1 \<Longrightarrow> c \<in> pending g (fst (pass t g s))"
        using c "1.prems"(1) by (simp add: pending_def cells_rect cand_def)
      then have "fst (pass t g s) c \<noteq> - 1"
        using none by auto
      moreover have "fst (pass t g s) c = 1 \<or> fst (pass t g s) c = - 1"
        using st unfolding settled_def by blast
      ultimately show ?thesis by blast
    qed
    then show ?thesis using False by (subst outer.simps) simp
  qed
qed

lemma tabulate_const:
  assumes "\<forall>c \<in> {..<m} \<times> {..<n}. lab c = k"
  shows "tabulate m n lab = replicate m (replicate n k)"
proof -
  have "map (\<lambda>j. lab (i, j)) [0..<n] = replicate n k" if "i < m" for i
    using assms that by (auto simp: list_eq_iff_nth_eq)
  then show ?thesis
    by (auto simp: tabulate_def list_eq_iff_nth_eq)
qed

section \<open>Two runs with different thresholds\<close>














lemma fold_visit_keeps_unvisited:
  assumes "ct = 0 \<or> ct = 1" "fst (fold (visit t g cur ct) ds st) c = - 1"
  shows "fst st c = - 1"
proof -
  have "fst (fold (visit t g cur ct) ds st) c = - 1 \<longrightarrow> fst st c = - 1"
  proof (rule fold_visit_rule[where P = "\<lambda>s. fst s c = - 1 \<longrightarrow> fst st c = - 1"])
    show "fst st c = - 1 \<longrightarrow> fst st c = - 1" by simp
  next
    fix s :: bfs_state and d :: "int \<times> int"
    assume "fst s c = - 1 \<longrightarrow> fst st c = - 1"
    then show "fst (fire t g cur ct d s) c = - 1 \<longrightarrow> fst st c = - 1"
      using mark_not_unvisited[OF assms(1)] by (auto simp: fire_def)
  qed
  with assms(2) show ?thesis by simp
qed



lemma expand_keeps_unvisited:
  assumes "fst (expand t g cur st) c = - 1"
  shows "fst st c = - 1"
  using curr_type_range assms unfolding expand_def by (rule fold_visit_keeps_unvisited)
























section \<open>Grids with every elevation below BIGINT\<close>








section \<open>The number of iterations, and labels that are written once\<close>

text \<open>On every grid of at least one cell the \<open>do\<close> loop runs at most rows times cols
  times, and \<open>find_ground\<close> returns the labels after that many iterations.\<close>

lemma passes_at_most_cells:
  assumes "g \<noteq> []" "g ! 0 \<noteq> []"
  shows "passes t g (\<lambda>c. - 1, initial_count g) \<le> length g * length (g ! 0) \<and>
         find_ground t g =
           Inr (tabulate (length g) (length (g ! 0))
                  (fst ((pass t g ^^ passes t g (\<lambda>c. - 1, initial_count g))
                          (\<lambda>c. - 1, initial_count g))))"
proof -
  let ?s = "(\<lambda>c. - 1, initial_count g) :: labels \<times> int"
  have size: "1 \<le> length g * length (g ! 0)"
    using assms by (simp add: Suc_le_eq)
  have "nat (initial_count g) \<le> length g * length (g ! 0)"
    using initial_count_le[of g] by (metis nat_int nat_mono of_nat_mult)
  then have "max 1 (nat (snd ?s)) \<le> length g * length (g ! 0)"
    using size by simp
  then have "passes t g ?s \<le> length g * length (g ! 0)"
    using passes_bound[of t g ?s] by linarith
  moreover have "find_ground t g =
      Inr (tabulate (length g) (length (g ! 0)) (fst ((pass t g ^^ passes t g ?s) ?s)))"
    using assms by (simp add: find_ground_def outer_funpow)
  ultimately show ?thesis ..
qed

text \<open>When every elevation that is not NODATA is below BIGINT, the seed of every
  iteration is a cell that is still -1, and a label other than -1 is the same after every
  later iteration.\<close>

lemma labels_written_once:
  assumes "rect g" "bounded g" "k < passes t g (\<lambda>c. - 1, initial_count g)"
  shows "fst ((pass t g ^^ k) (\<lambda>c. - 1, initial_count g))
           (cell_of (find_min g (fst ((pass t g ^^ k) (\<lambda>c. - 1, initial_count g))))) = - 1 \<and>
         (\<forall>c. fst ((pass t g ^^ k) (\<lambda>c. - 1, initial_count g)) c \<noteq> - 1 \<longrightarrow>
            fst ((pass t g ^^ Suc k) (\<lambda>c. - 1, initial_count g)) c
              = fst ((pass t g ^^ k) (\<lambda>c. - 1, initial_count g)) c)"
proof -
  let ?s = "(\<lambda>c. - 1, initial_count g) :: labels \<times> int"
  have cnt: "snd ?s = int (card (pending g (fst ?s)))"
    using initial_count_pending[OF assms(1)] by simp
  have fresh: "fst ((pass t g ^^ k) ?s) (cell_of (find_min g (fst ((pass t g ^^ k) ?s)))) = - 1"
  proof (cases "pending g (fst ?s) = {}")
    case False
    show ?thesis
      using run_fresh[OF assms(1,2) cnt False assms(3)] by (rule pending_fresh)
  next
    case True
    then have "snd ?s = 0" using cnt by simp
    then have "snd (pass t g ?s) < 0" using pass_cnt[of t g ?s] by simp
    then have "passes t g ?s = 1" by (subst passes.simps) simp
    with assms(3) have "k = 0" by simp
    then show ?thesis by simp
  qed
  have "fst ((pass t g ^^ Suc k) ?s) c = fst ((pass t g ^^ k) ?s) c"
    if c: "fst ((pass t g ^^ k) ?s) c \<noteq> - 1" for c
  proof -
    obtain lab n where sk: "(pass t g ^^ k) ?s = (lab, n)" by (cases "(pass t g ^^ k) ?s")
    from fresh have "lab (cell_of (find_min g lab)) = - 1" by (simp add: sk)
    moreover from c have "lab c \<noteq> - 1" by (simp add: sk)
    ultimately have "fst (pass t g (lab, n)) c = lab c" by (rule pass_stable)
    then show ?thesis by (simp add: sk)
  qed
  with fresh show ?thesis by blast
qed

section \<open>Running the model on concrete inputs\<close>

text \<open>The equations that unfold a call of the model on a concrete grid or point list.\<close>

lemmas run_find_ground = find_ground_def tabulate_def outer.simps pass_def find_min_def
  lower_def initial_count_def scan_def bfs.simps expand_def compass_def visit.simps curr_type_def
  cell_of_def NODATA_def BIGINT_def Let_def

lemma sqrt_36: "sqrt 36 = 6"
  by (rule real_sqrt_unique) simp_all

lemma bounding_box_three: "bounding_box [canopy, below, corner] = box_9_4"
  by (simp add: widen_def canopy_def below_def corner_def box_9_4_def)

lemma cell_size_9_4: "cell_size box_9_4 1 = 6"
  by (simp add: cell_size_def box_9_4_def sqrt_36)

lemma bin_points_three:
  "bin_points box_9_4 6 1 2 [canopy, below, corner] =
     Inr ((\<lambda>c. [])((0, 0) := [30], (0, Suc 0) := [7]),
          (\<lambda>c. [])((0, 0) := [30, 10], (0, Suc 0) := [7]))"
  by (simp add: bin_points_def bin_point_def canopy_def below_def corner_def box_9_4_def)

lemma average_three:
  "average (Suc 0) 2 30 ((\<lambda>c. [])((0, 0) := [30], (0, Suc 0) := [7]),
                          (\<lambda>c. [])((0, 0) := [30, 10], (0, Suc 0) := [7])) =
     Inr ((\<lambda>c. NODATA)((0, 0) := 30), (\<lambda>c. NODATA)((0, 0) := 20), 30)"
  by (simp add: average_def average_cell_def NODATA_def Let_def)

lemma find_ground_three: "find_ground (1 / 2) [[20, NODATA]] = Inr [[1, - 1]]"
  by (simp add: run_find_ground)

lemma gridify_three:
  "gridify 3 (1 / 2) box_9_4 [canopy, below, corner] =
     Inr \<lparr>elevation = [[30, NODATA]], min_elevation = 30,
          last_grid = [[20, NODATA]], is_ground = [[1, - 1]]\<rparr>"
proof -
  have n: "num_cells [canopy, below, corner] 3 = 1"
    by (simp add: num_cells_def)
  have r: "\<lceil>(4::real) / 6\<rceil> = 1" "\<lceil>(9::real) / 6\<rceil> = 2"
    by simp_all
  have tab: "tabulate_grid (Suc 0) 2 ((\<lambda>c. NODATA)((0, 0) := 20)) = [[20, NODATA]]"
    "tabulate_grid (Suc 0) 2 ((\<lambda>c. NODATA)((0, 0) := 30)) = [[30, NODATA]]"
    by (simp_all add: tabulate_grid_def eval_nat_numeral)
  have b: "maxy box_9_4 - miny box_9_4 = 4" "maxx box_9_4 - minx box_9_4 = 9"
    "maxz box_9_4 = 30"
    by (simp_all add: box_9_4_def)
  show ?thesis
    by (simp add: gridify_def n cell_size_9_4 b r bin_points_three average_three tab
        find_ground_three)
qed

lemma bounding_box_two: "bounding_box [near, far] = box_two"
  by (simp add: widen_def near_def far_def box_two_def)

lemma cell_size_two: "cell_size box_two 1 = 6"
  by (simp add: cell_size_def box_two_def sqrt_36)

lemma bin_points_two:
  "bin_points box_two 6 1 2 [near, far] =
     Inr ((\<lambda>c. [])((0, 0) := [3], (0, Suc 0) := [4]),
          (\<lambda>c. [])((0, 0) := [3], (0, Suc 0) := [4]))"
  by (simp add: bin_points_def bin_point_def near_def far_def box_two_def)

lemma average_two:
  "average (Suc 0) 2 4 ((\<lambda>c. [])((0, 0) := [3], (0, Suc 0) := [4]),
                         (\<lambda>c. [])((0, 0) := [3], (0, Suc 0) := [4])) =
     Inr ((\<lambda>c. NODATA)((0, 0) := 3), (\<lambda>c. NODATA)((0, 0) := 3), 3)"
  by (simp add: average_def average_cell_def NODATA_def Let_def)

lemma find_ground_two: "find_ground (1 / 2) [[3, NODATA]] = Inr [[1, - 1]]"
  by (simp add: run_find_ground)

lemma gridify_two:
  "gridify 2 (1 / 2) box_two [near, far] =
     Inr \<lparr>elevation = [[3, NODATA]], min_elevation = 3,
          last_grid = [[3, NODATA]], is_ground = [[1, - 1]]\<rparr>"
proof -
  have n: "num_cells [near, far] 2 = 1"
    by (simp add: num_cells_def)
  have r: "\<lceil>(4::real) / 6\<rceil> = 1" "\<lceil>(9::real) / 6\<rceil> = 2"
    by simp_all
  have tab: "tabulate_grid (Suc 0) 2 ((\<lambda>c. NODATA)((0, 0) := 3)) = [[3, NODATA]]"
    by (simp add: tabulate_grid_def eval_nat_numeral)
  have b: "maxy box_two - miny box_two = 4" "maxx box_two - minx box_two = 9"
    "maxz box_two = 4"
    by (simp_all add: box_two_def)
  show ?thesis
    by (simp add: gridify_def n cell_size_two b r bin_points_two average_two tab
        find_ground_two)
qed

lemma bounding_box_unit: "bounding_box [unit_near, unit_far] = unit_box"
  by (simp add: widen_def unit_near_def unit_far_def unit_box_def)

lemma cell_size_unit: "cell_size unit_box 1 = 1"
  by (simp add: cell_size_def unit_box_def)

lemma bin_points_unit: "bin_points unit_box 1 1 1 [unit_near, unit_far] = Inl Out_of_range"
  by (simp add: bin_points_def bin_point_def unit_near_def unit_far_def unit_box_def)

lemma gridify_unit: "gridify 2 (1 / 2) unit_box [unit_near, unit_far] = Inl Out_of_range"
proof -
  have n: "num_cells [unit_near, unit_far] 2 = 1"
    by (simp add: num_cells_def)
  have b: "maxy unit_box - miny unit_box = 1" "maxx unit_box - minx unit_box = 1"
    by (simp_all add: unit_box_def)
  show ?thesis
    by (simp add: gridify_def n cell_size_unit b bin_points_unit)
qed

section \<open>The claims\<close>

text \<open>
  C1. The claim: a point's z enters the last-return samples of its cell exactly when
  \<open>return_number = nb_of_returns\<close>. The source tests \<open>p.return_number == p.return_number\<close>,
  so every point enters. On a pulse with two returns over one cell, the first return (30,
  \<open>return_number\<close> 1 of 2) is in the cell's last-return list beside the last one (10), and
  the depth grid holds their mean 20 where the claim has 10.
\<close>

theorem last_returns_hold_every_return:
  "return_number canopy = 1 \<and> nb_of_returns canopy = 2 \<and>
   bounding_box [canopy, below, corner] = box_9_4 \<and>
   cell_size box_9_4 (num_cells [canopy, below, corner] 3) = 6 \<and>
   bin_points box_9_4 6 1 2 [canopy, below, corner] =
     Inr ((\<lambda>c. [])((0, 0) := [30], (0, Suc 0) := [7]),
          (\<lambda>c. [])((0, 0) := [30, 10], (0, Suc 0) := [7])) \<and>
   gridify 3 (1 / 2) box_9_4 [canopy, below, corner] =
     Inr \<lparr>elevation = [[30, NODATA]], min_elevation = 30,
          last_grid = [[20, NODATA]], is_ground = [[1, - 1]]\<rparr>"
proof -
  have "num_cells [canopy, below, corner] 3 = 1"
    by (simp add: num_cells_def)
  then have "cell_size box_9_4 (num_cells [canopy, below, corner] 3) = 6"
    by (simp add: cell_size_9_4)
  moreover have "return_number canopy = 1 \<and> nb_of_returns canopy = 2"
    by (simp add: canopy_def)
  ultimately show ?thesis
    using bounding_box_three bin_points_three gridify_three by blast
qed

text \<open>
  C2. The claim: after \<open>gridify\<close> every cell of the rows by cols grid holds the mean of
  its samples, also the cells whose column index is at least the number of rows. Both
  averaging loops of the source run to \<open>first_returns.size()\<close>, the number of rows. On a
  1 by 2 grid the cell (0, 1) has the sample 4 in both lists and is NODATA in both grids.
\<close>

theorem averaging_stops_at_row_count:
  "bounding_box [near, far] = box_two \<and>
   cell_size box_two (num_cells [near, far] 2) = 6 \<and>
   bin_points box_two 6 1 2 [near, far] =
     Inr ((\<lambda>c. [])((0, 0) := [3], (0, Suc 0) := [4]),
          (\<lambda>c. [])((0, 0) := [3], (0, Suc 0) := [4])) \<and>
   gridify 2 (1 / 2) box_two [near, far] =
     Inr \<lparr>elevation = [[3, NODATA]], min_elevation = 3,
          last_grid = [[3, NODATA]], is_ground = [[1, - 1]]\<rparr>"
proof -
  have "num_cells [near, far] 2 = 1"
    by (simp add: num_cells_def)
  then have "cell_size box_two (num_cells [near, far] 2) = 6"
    by (simp add: cell_size_two)
  then show ?thesis
    using bounding_box_two bin_points_two gridify_two by blast
qed




text \<open>
  C4. The claim: on an empty point set, or a bounding box of zero width or height,
  \<open>gridify\<close> fails fast with an explicit error and does not divide by zero. The source
  has no check: it computes \<open>h*w/float(num_cells)\<close> and \<open>h/delta\<close> at once. On the empty
  point set \<open>num_cells\<close> is 0 and the first division is by zero.
\<close>

theorem gridify_empty_divides_by_zero:
  "gridify 5 (1 / 2) (bounding_box []) [] = Inl Division_by_zero"
  by (simp add: gridify_def num_cells_def)

text \<open>
  C4, as the code has it: \<open>gridify\<close> makes no check of its input. On an empty point set
  and on a bounding box of zero width or height it reports no error; it reaches a division
  by zero (\<open>num_cells = 0\<close>, or \<open>delta = 0\<close>), for every density and threshold.
\<close>

theorem gridify_divides_unchecked:
  assumes "points = [] \<or> maxx b = minx b \<or> maxy b = miny b"
  shows "gridify point_density t b points = Inl Division_by_zero"
proof (cases "point_density = 0 \<or> num_cells points point_density = 0")
  case True
  then show ?thesis by (auto simp: gridify_def)
next
  case False
  then have "points \<noteq> []" by (auto simp: num_cells_def)
  with assms have area: "(maxy b - miny b) * (maxx b - minx b) = 0" by auto
  then have "cell_size b (num_cells points point_density) = 0"
    by (simp add: cell_size_def)
  moreover have "\<not> (maxy b - miny b) * (maxx b - minx b)
      / real_of_int (num_cells points point_density) < 0"
    by (simp only: area)
  ultimately show ?thesis
    using False by (simp add: gridify_def)
qed

theorem gridify_divides_unchecked_witness:
  "gridify 5 (1 / 2) box_two [] = Inl Division_by_zero \<and>
   maxx \<lparr>minx = 2, maxx = 2, miny = 0, maxy = 4, minz = 3, maxz = 4\<rparr>
     = minx \<lparr>minx = 2, maxx = 2, miny = 0, maxy = 4, minz = 3, maxz = 4\<rparr> \<and>
   gridify 1 (1 / 2) \<lparr>minx = 2, maxx = 2, miny = 0, maxy = 4, minz = 3, maxz = 4\<rparr> [near, far]
     = Inl Division_by_zero"
  using gridify_divides_unchecked[of "[]" box_two 5 "1 / 2"]
    gridify_divides_unchecked[of "[near, far]"
      "\<lparr>minx = 2, maxx = 2, miny = 0, maxy = 4, minz = 3, maxz = 4\<rparr>" 1 "1 / 2"]
  by simp

text \<open>
  C5. The claim: a NODATA cell is never labelled and never a seed, also when the grid holds
  only NODATA cells. The \<open>do\<close> loop runs once before it tests the counter, and the seed
  indices stay (0, 0) when no cell qualifies: on the grid of one NODATA cell that cell is
  labelled 1 (Ground), for every threshold.
\<close>

theorem nodata_cell_labelled_ground: "find_ground t [[NODATA]] = Inr [[1]]"
  by (simp add: run_find_ground)

text \<open>
  C6. The claim: for an unvisited neighbour that holds data, a slope in \<open>[0, threshold]\<close>
  gives it the current cell's label, a slope above the threshold labels it Building, and a
  slope below 0 leaves it unlabelled and out of the queue. The source says the same in its
  comments (\<open>if steep upwards slope, new point is building\<close>, \<open>if negative slope terminate
  this branch\<close>), but its second branch tests \<open>slope > building_slope_threshold\<close> alone.
  With the threshold -5 the step from 10 down to 8 has slope -2: the neighbour is labelled
  0 (Building) and pushed. In the 2 by 2 grid the cell (1, 1) is below both its neighbours;
  by the claim no expansion labels it and it is the next seed, Ground, and the code has it
  Building.
\<close>

theorem downward_step_labelled_building:
  "visit (- 5) [[0, 10, 8]] (0, 1, 10) 0 (0, 1) ((\<lambda>c. - 1)((0, 0) := 1, (0, 1) := 0), [], 0)
     = ((\<lambda>c. - 1)((0, 0) := 1, (0, 1) := 0, (0, 2) := 0), [(0, 2, 8)], - 1) \<and>
   find_ground (- 5) [[0, 10, 8]] = Inr [[1, 0, 0]] \<and>
   find_ground (- 5) [[0, 10], [10, 8]] = Inr [[1, 0], [0, 0]]"
  by (simp add: run_find_ground)

text \<open>
  C7. The claim: a grid whose cells all hold the same elevation is labelled Ground
  everywhere, for every threshold. With a negative threshold the slope 0 between equal
  neighbours falls into the branch \<open>slope > threshold\<close>, and with an elevation of BIGINT
  or more the seed search finds no cell and the expansion starts from the height BIGINT:
  in both cases the second cell of a 1 by 2 grid is labelled 0 (Building).
\<close>

theorem level_grid_negative_or_huge:
  "find_ground (- 1) [[5, 5]] = Inr [[1, 0]] \<and>
   find_ground (1 / 2) [[300000000, 300000000]] = Inr [[1, 0]]"
  by (simp add: run_find_ground)

text \<open>
  C7, as the code has it: a grid of at least one cell whose cells all hold the same
  elevation, not NODATA and below BIGINT, is labelled Ground everywhere for every threshold
  that is not negative.
\<close>

theorem level_grid_all_ground:
  assumes "0 < m" "0 < n" "v \<noteq> NODATA" "v < BIGINT" "0 \<le> t"
  shows "find_ground t (replicate m (replicate n v)) = Inr (replicate m (replicate n 1))"
proof -
  let ?g = "replicate m (replicate n v)"
  have len: "length ?g = m" "?g ! 0 = replicate n v" "length (?g ! 0) = n"
    using assms(1) by simp_all
  have ins: "inside ?g = {..<m} \<times> {..<n}"
    by (simp add: inside_def len)
  have r: "rect ?g" by (simp add: rect_def len)
  have lv: "level ?g v" by (auto simp: level_def ins elev_def)
  have b: "bounded ?g" using lv assms(4) by (simp add: bounded_def level_def)
  let ?s = "(\<lambda>c. - 1, initial_count ?g) :: labels \<times> int"
  have st: "settled ?g ?s"
    using initial_count_pending[OF r] by (simp add: settled_def)
  have "(0, 0) \<in> pending ?g (fst ?s)"
    using assms(1,2,3) lv by (simp add: pending_def cells_rect[OF r] ins cand_def level_def)
  then have ne: "pending ?g (fst ?s) \<noteq> {}" by auto
  have "\<forall>c \<in> inside ?g. fst (outer t ?g ?s) c = 1"
    using level_outer[OF r b lv assms(3,5) st ne] .
  then have "tabulate m n (fst (outer t ?g ?s)) = replicate m (replicate n 1)"
    unfolding ins by (rule tabulate_const)
  then show ?thesis
    using assms(1,2) by (simp add: find_ground_def len del: replicate.simps)
qed

theorem level_grid_all_ground_witness:
  "find_ground (1 / 2) [[7, 7, 7], [7, 7, 7]] = Inr [[1, 1, 1], [1, 1, 1]]"
  using level_grid_all_ground[of 2 3 7 "1 / 2"]
  by (simp add: NODATA_def BIGINT_def eval_nat_numeral)

text \<open>
  C8. The claim: \<open>find_ground\<close> terminates, no cell that holds data is labelled twice, and
  the \<open>do\<close> loop runs at most once per cell. The source looks for the \<open>lowest UNCLASSIFIED
  ground point\<close> below \<open>min_height = BIGINT\<close>, and labels the cell at \<open>min_i, min_j\<close>
  whether or not the search found one. When the only unclassified cells left hold BIGINT or
  more, the indices stay (0, 0): the cell (0, 0), labelled 0 (Building) in the first
  iteration, is pushed again and relabelled 1 (Ground) in the second, and the cell that was
  left keeps -1.
\<close>

theorem relabelled_by_fallback_seed:
  "fst (pass 5 [[10, 0, 1], [1, 1, 500000000], [1, 500000000, 300000000]]
         (\<lambda>c. - 1, initial_count [[10, 0, 1], [1, 1, 500000000], [1, 500000000, 300000000]]))
     (0, 0) = 0 \<and>
   find_ground 5 [[10, 0, 1], [1, 1, 500000000], [1, 500000000, 300000000]]
     = Inr [[1, 1, 1], [1, 1, 0], [1, 0, - 1]] \<and>
   fst (pass 5 [[10, 0, 500000000, 300000000]]
         (\<lambda>c. - 1, initial_count [[10, 0, 500000000, 300000000]])) (0, 0) = 0 \<and>
   fst (pass 5 [[10, 0, 500000000, 300000000]]
         (pass 5 [[10, 0, 500000000, 300000000]]
           (\<lambda>c. - 1, initial_count [[10, 0, 500000000, 300000000]]))) (0, 0) = 1 \<and>
   find_ground 5 [[10, 0, 500000000, 300000000]] = Inr [[1, 1, 0, - 1]]"
  by (simp add: run_find_ground)

text \<open>
  C9. The claim: every point's row and column are inside the grid, also for the points on
  the maximum of the bounding box. With two points at the corners of a unit square and a
  density of 2 the cell size is 1 and the grid is 1 by 1; the point at the maximum has row
  \<open>floor (1 / 1) = 1\<close> and column 1, and \<open>last_returns[1][1]\<close> is outside the grid.
\<close>

theorem maximum_point_outside_grid:
  "bounding_box [unit_near, unit_far] = unit_box \<and>
   cell_size unit_box (num_cells [unit_near, unit_far] 2) = 1 \<and>
   \<lceil>(maxy unit_box - miny unit_box) / 1\<rceil> = 1 \<and>
   \<lceil>(maxx unit_box - minx unit_box) / 1\<rceil> = 1 \<and>
   \<lfloor>(p_y unit_far - miny unit_box) / 1\<rfloor> = 1 \<and>
   \<lfloor>(p_x unit_far - minx unit_box) / 1\<rfloor> = 1 \<and>
   gridify 2 (1 / 2) unit_box [unit_near, unit_far] = Inl Out_of_range"
proof -
  have "num_cells [unit_near, unit_far] 2 = 1"
    by (simp add: num_cells_def)
  then have "cell_size unit_box (num_cells [unit_near, unit_far] 2) = 1"
    by (simp add: cell_size_unit)
  moreover have "\<lceil>(maxy unit_box - miny unit_box) / 1\<rceil> = 1"
    "\<lceil>(maxx unit_box - minx unit_box) / 1\<rceil> = 1"
    "\<lfloor>(p_y unit_far - miny unit_box) / 1\<rfloor> = 1"
    "\<lfloor>(p_x unit_far - minx unit_box) / 1\<rfloor> = 1"
    by (simp_all add: unit_box_def unit_far_def)
  ultimately show ?thesis
    using bounding_box_unit gridify_unit by blast
qed

text \<open>
  C10. On a rectangular grid of at least one cell whose cells are all NODATA, the \<open>do\<close>
  loop runs exactly once, the seed is the cell (0, 0), and that cell is labelled 1 (Ground);
  every other cell stays -1.
\<close>

theorem all_nodata_seeds_origin:
  assumes "g \<noteq> []" "g ! 0 \<noteq> []" "rect g" "all_nodata g"
  shows "find_ground t g = Inr (tabulate (length g) (length (g ! 0)) ((\<lambda>c. - 1)((0, 0) := 1))) \<and>
         tabulate (length g) (length (g ! 0)) ((\<lambda>c. - 1)((0, 0) := 1)) ! 0 ! 0 = 1 \<and>
         passes t g (\<lambda>c. - 1, initial_count g) = 1"
proof -
  have cnt: "initial_count g = 0"
    using initial_count_pending[OF assms(3)] all_nodata_pending[OF assms(4,3)] by simp
  have p: "pass t g (\<lambda>c. - 1, 0) = ((\<lambda>c. - 1)((0, 0) := 1), - 1)"
    using all_nodata_pass[OF assms(4,3), of t "\<lambda>c. - 1" 0] by simp
  have "outer t g (\<lambda>c. - 1, 0) = ((\<lambda>c. - 1)((0, 0) := 1), - 1)"
    by (subst outer.simps) (simp add: p)
  then have "find_ground t g = Inr (tabulate (length g) (length (g ! 0)) ((\<lambda>c. - 1)((0, 0) := 1)))"
    using assms(1,2) by (simp add: find_ground_def cnt)
  moreover have "passes t g (\<lambda>c. - 1, initial_count g) = 1"
    unfolding cnt by (subst passes.simps) (simp add: p)
  moreover have "tabulate (length g) (length (g ! 0)) ((\<lambda>c. - 1)((0, 0) := 1)) ! 0 ! 0 = 1"
    using assms(1,2) by (simp add: tabulate_def)
  ultimately show ?thesis by blast
qed

theorem all_nodata_seeds_origin_witness:
  "find_ground (1 / 2) [[NODATA, NODATA], [NODATA, NODATA]] = Inr [[1, - 1], [- 1, - 1]] \<and>
   passes (1 / 2) [[NODATA, NODATA], [NODATA, NODATA]]
     (\<lambda>c. - 1, initial_count [[NODATA, NODATA], [NODATA, NODATA]]) = 1"
  using all_nodata_seeds_origin[of "[[NODATA, NODATA], [NODATA, NODATA]]" "1 / 2"]
  by (simp add: rect_def all_nodata_def tabulate_def)

end
